theory Spec2Isabelle
  imports Complex_Main
begin

section \<open>The scalar autodiff core of micrograd: class \<open>Value\<close>\<close>

text \<open>
  The development embeds the class \<open>Value\<close> of the notebook \<open>neurons_and_mlp.ipynb\<close>.

  \<^item> Python objects live in a store. A reference is the allocation index of an object,
    the store is the list of all \<open>Value\<close> objects allocated so far, and object identity
    is equality of references. Python keeps every referenced object alive, so a
    reference held by the program always points into the store.
  \<^item> Numbers (\<open>int\<close>, \<open>float\<close>) are exact reals: rounding, overflow, infinities and NaN
    of the binary floating point format are not part of the model.
  \<^item> A closure \<open>_backward\<close> is the record of which inner function it is and of the
    variables it captured (\<open>self\<close>, \<open>other\<close>, \<open>out\<close>, \<open>t\<close>).
  \<^item> A raised exception is a value of type \<open>error\<close>.
  \<^item> A leading underscore of a Python name is written \<open>u_\<close>.
\<close>

subsection \<open>Objects\<close>

type_synonym ref = nat

text \<open>
  What an operand of an operator can be: a plain number, a \<open>Value\<close> object, or \<open>None\<close>
  (standing for the objects that support no arithmetic at all).
\<close>

datatype pyobj = PNum real | PVal ref | PNone

datatype error =
    TypeError
  | AssertionError
  | ZeroDivisionError
  | RecursionError
  | ComplexResult
    \<comment> \<open>not an exception: Python goes on with a complex number here, which the
        real-valued model does not follow\<close>

text \<open>The inner functions \<open>_backward\<close> with their captured variables; \<open>Noop\<close> is \<open>lambda: None\<close>.\<close>

datatype closure =
    Noop
  | AddBack ref pyobj ref     \<comment> \<open>\<open>self\<close>, \<open>other\<close>, \<open>out\<close> of \<open>__add__\<close>\<close>
  | MulBack ref pyobj ref     \<comment> \<open>\<open>self\<close>, \<open>other\<close>, \<open>out\<close> of \<open>__mul__\<close>\<close>
  | PowBack ref real ref      \<comment> \<open>\<open>self\<close>, \<open>other\<close>, \<open>out\<close> of \<open>__pow__\<close>\<close>
  | TanhBack ref real ref     \<comment> \<open>\<open>self\<close>, \<open>t\<close>, \<open>out\<close> of \<open>tanh\<close>\<close>
  | ExpBack ref ref           \<comment> \<open>\<open>self\<close>, \<open>out\<close> of \<open>exp\<close>\<close>

text \<open>The tag \<open>_op\<close>; \<open>OpPow p\<close> is the string \<open>f'**{p}'\<close>.\<close>

datatype op_tag = OpNone | OpAdd | OpMul | OpPow real | OpTanh | OpExp

text \<open>
  The attributes of a \<open>Value\<close>. \<open>_prev\<close> is a Python set of references: it is kept as
  the list of its members without duplicates, in the order in which \<open>for child in v._prev\<close>
  yields them. Python does not fix that order; the constructor below takes the order
  that \<open>remdups\<close> gives the tuple \<open>_children\<close>, and every theorem about the traversal
  is proved for all stores, whatever the order of their \<open>_prev\<close> lists.
\<close>

record Value =
  data :: real
  grad :: real
  u_backward :: closure
  u_prev :: "ref list"
  u_op :: op_tag
  label :: string

type_synonym heap = "Value list"

subsection \<open>Arithmetic on plain numbers\<close>

text \<open>
  \<open>x ** y\<close> on numbers: a zero base with a negative exponent raises
  \<open>ZeroDivisionError\<close>, a negative base with a fractional exponent gives a complex number.
\<close>

definition is_integral :: "real \<Rightarrow> bool" where
  "is_integral y \<longleftrightarrow> y = of_int \<lfloor>y\<rfloor>"

definition py_pow :: "real \<Rightarrow> real \<Rightarrow> error + real" where
  "py_pow x y =
     (if x = 0 \<and> y < 0 then Inl ZeroDivisionError
      else if x < 0 \<and> \<not> is_integral y then Inl ComplexResult
      else if is_integral y then Inr (x powi \<lfloor>y\<rfloor>)
      else Inr (x powr y))"

subsection \<open>The constructor\<close>

text \<open>
  \<^verbatim>\<open>
  def __init__(self, data, _children=(), _op='', label='') -> None:
      self.data = data
      self.grad = 0.0
      self._backward = lambda: None
      self._prev = set(_children)
      self._op = _op
      self.label = label
  \<close>
  The new object gets the next free reference; no other object is touched.
\<close>

definition Value_init :: "heap \<Rightarrow> real \<Rightarrow> ref list \<Rightarrow> op_tag \<Rightarrow> string \<Rightarrow> ref \<times> heap" where
  "Value_init h d children opr lbl =
     (length h,
      h @ [\<lparr>data = d, grad = 0, u_backward = Noop, u_prev = remdups children,
            u_op = opr, label = lbl\<rparr>])"

text \<open>The assignment \<open>out._backward = _backward\<close>.\<close>

definition set_backward :: "heap \<Rightarrow> ref \<Rightarrow> closure \<Rightarrow> heap" where
  "set_backward h out cl = h[out := (h ! out)\<lparr>u_backward := cl\<rparr>]"

text \<open>What the operations do after computing the forward value \<open>d\<close>.\<close>

definition new_node :: "heap \<Rightarrow> real \<Rightarrow> ref list \<Rightarrow> op_tag \<Rightarrow> (ref \<Rightarrow> closure) \<Rightarrow> (error + ref) \<times> heap" where
  "new_node h d children opr cl =
     (let (out, h1) = Value_init h d children opr [] in (Inr out, set_backward h1 out (cl out)))"

subsection \<open>The forward operations\<close>

text \<open>
  \<^verbatim>\<open>
  def __add__(self, other):
      def _backward(): ...
      if isinstance(other, Value):
          out = Value(self.data + other.data, (self, other), '+')
          out._backward = _backward
          return out
      else:
          out = Value(self.data + other, (self,), '+')
          out._backward = _backward
          return out
  \<close>
  In the \<open>else\<close> branch \<open>self.data + other\<close> raises \<open>TypeError\<close> for \<open>None\<close>, before the
  constructor is called.
\<close>

definition Value_add :: "heap \<Rightarrow> ref \<Rightarrow> pyobj \<Rightarrow> (error + ref) \<times> heap" where
  "Value_add h self other =
     (case other of
        PVal b \<Rightarrow> new_node h (data (h ! self) + data (h ! b)) [self, b] OpAdd (AddBack self other)
      | PNum k \<Rightarrow> new_node h (data (h ! self) + k) [self] OpAdd (AddBack self other)
      | PNone \<Rightarrow> (Inl TypeError, h))"

text \<open>\<^verbatim>\<open>def __radd__(self, other): return self + other\<close>\<close>

definition Value_radd :: "heap \<Rightarrow> ref \<Rightarrow> pyobj \<Rightarrow> (error + ref) \<times> heap" where
  "Value_radd h self other = Value_add h self other"

text \<open>\<open>__mul__\<close> has the shape of \<open>__add__\<close>, with \<open>*\<close> and the tag \<open>'*'\<close>.\<close>

definition Value_mul :: "heap \<Rightarrow> ref \<Rightarrow> pyobj \<Rightarrow> (error + ref) \<times> heap" where
  "Value_mul h self other =
     (case other of
        PVal b \<Rightarrow> new_node h (data (h ! self) * data (h ! b)) [self, b] OpMul (MulBack self other)
      | PNum k \<Rightarrow> new_node h (data (h ! self) * k) [self] OpMul (MulBack self other)
      | PNone \<Rightarrow> (Inl TypeError, h))"

text \<open>\<^verbatim>\<open>def __rmul__(self, other): return self * other\<close>\<close>

definition Value_rmul :: "heap \<Rightarrow> ref \<Rightarrow> pyobj \<Rightarrow> (error + ref) \<times> heap" where
  "Value_rmul h self other = Value_mul h self other"

text \<open>\<^verbatim>\<open>def __neg__(self): return self * -1\<close>\<close>

definition Value_neg :: "heap \<Rightarrow> ref \<Rightarrow> (error + ref) \<times> heap" where
  "Value_neg h self = Value_mul h self (PNum (- 1))"

text \<open>
  \<^verbatim>\<open>
  def __pow__(self, other):
      assert isinstance(other, (int, float)), "only supporting int/float powers for now"
      out = Value(self.data ** other, (self,), f'**{other}')
      def _backward(): ...
      out._backward = _backward
      return out
  \<close>
\<close>

definition Value_pow :: "heap \<Rightarrow> ref \<Rightarrow> pyobj \<Rightarrow> (error + ref) \<times> heap" where
  "Value_pow h self other =
     (case other of
        PNum p \<Rightarrow>
          (case py_pow (data (h ! self)) p of
             Inl e \<Rightarrow> (Inl e, h)
           | Inr d \<Rightarrow> new_node h d [self] (OpPow p) (PowBack self p))
      | _ \<Rightarrow> (Inl AssertionError, h))"

text \<open>A \<open>Value\<close> returned by a method, as an operand of the next operator.\<close>

definition wrap :: "(error + ref) \<times> heap \<Rightarrow> (error + pyobj) \<times> heap" where
  "wrap res = (case res of (Inl e, h) \<Rightarrow> (Inl e, h) | (Inr r, h) \<Rightarrow> (Inr (PVal r), h))"

text \<open>
  The unary minus \<open>-other\<close> of Python: negation of a number, \<open>__neg__\<close> of a \<open>Value\<close>,
  \<open>TypeError\<close> for \<open>None\<close>.
\<close>

definition py_neg :: "heap \<Rightarrow> pyobj \<Rightarrow> (error + pyobj) \<times> heap" where
  "py_neg h x =
     (case x of
        PNum k \<Rightarrow> (Inr (PNum (- k)), h)
      | PVal b \<Rightarrow> wrap (Value_neg h b)
      | PNone \<Rightarrow> (Inl TypeError, h))"

text \<open>
  \<^verbatim>\<open>def __sub__(self, other): return self + (-other)\<close>
  The operand \<open>-other\<close> is evaluated first; \<open>self + ...\<close> is \<open>Value.__add__\<close>, since \<open>self\<close>
  is a \<open>Value\<close>.
\<close>

definition Value_sub :: "heap \<Rightarrow> ref \<Rightarrow> pyobj \<Rightarrow> (error + ref) \<times> heap" where
  "Value_sub h self other =
     (case py_neg h other of
        (Inl e, h1) \<Rightarrow> (Inl e, h1)
      | (Inr x, h1) \<Rightarrow> Value_add h1 self x)"

text \<open>
  \<open>other ** -1\<close> as \<open>__truediv__\<close> evaluates it: \<open>Value.__pow__\<close> for a \<open>Value\<close>, the power of
  numbers for a number, \<open>TypeError\<close> for \<open>None\<close>.
\<close>

definition py_pow_obj :: "heap \<Rightarrow> pyobj \<Rightarrow> real \<Rightarrow> (error + pyobj) \<times> heap" where
  "py_pow_obj h x p =
     (case x of
        PNum k \<Rightarrow> (case py_pow k p of Inl e \<Rightarrow> (Inl e, h) | Inr d \<Rightarrow> (Inr (PNum d), h))
      | PVal b \<Rightarrow> wrap (Value_pow h b (PNum p))
      | PNone \<Rightarrow> (Inl TypeError, h))"

text \<open>\<^verbatim>\<open>def __truediv__(self, other): return self * (other ** -1)\<close>\<close>

definition Value_truediv :: "heap \<Rightarrow> ref \<Rightarrow> pyobj \<Rightarrow> (error + ref) \<times> heap" where
  "Value_truediv h self other =
     (case py_pow_obj h other (- 1) of
        (Inl e, h1) \<Rightarrow> (Inl e, h1)
      | (Inr x, h1) \<Rightarrow> Value_mul h1 self x)"

text \<open>
  \<^verbatim>\<open>
  def tanh(self):
      x = self.data
      t = (math.exp(2*x) - 1)/(math.exp(2*x) + 1)
      out = Value(t, (self,), 'tanh')
      def _backward(): ...
      out._backward = _backward
      return out
  \<close>
\<close>

definition Value_tanh :: "heap \<Rightarrow> ref \<Rightarrow> (error + ref) \<times> heap" where
  "Value_tanh h self =
     (let x = data (h ! self);
          t = (exp (2 * x) - 1) / (exp (2 * x) + 1)
      in new_node h t [self] OpTanh (TanhBack self t))"

text \<open>
  \<^verbatim>\<open>
  def exp(self):
      x = self.data
      out = Value(math.exp(x), (self,), 'exp')
      def _backward(): ...
      out._backward = _backward
      return out
  \<close>
\<close>

definition Value_exp :: "heap \<Rightarrow> ref \<Rightarrow> (error + ref) \<times> heap" where
  "Value_exp h self =
     (let x = data (h ! self) in new_node h (exp x) [self] OpExp (ExpBack self))"

subsection \<open>Operator dispatch\<close>

text \<open>
  The special methods that the class \<open>Value\<close> defines. An infix expression \<open>l op r\<close> calls
  the method of the left operand; when the left operand is a number and the right one
  a \<open>Value\<close>, the number's method returns \<open>NotImplemented\<close> and Python looks up the
  reflected method in the class of the right operand, raising \<open>TypeError\<close> when the class
  does not define it.
\<close>

datatype binop = Add | Sub | Mul | Truediv | Pow

definition Value_methods :: "string list" where
  "Value_methods =
     [''__init__'', ''__repr__'', ''__add__'', ''__radd__'', ''__neg__'', ''__sub__'',
      ''__mul__'', ''__pow__'', ''__rmul__'', ''__truediv__'', ''tanh'', ''exp'', ''backward'']"

fun method_name :: "binop \<Rightarrow> string" where
  "method_name Add = ''__add__''"
| "method_name Sub = ''__sub__''"
| "method_name Mul = ''__mul__''"
| "method_name Truediv = ''__truediv__''"
| "method_name Pow = ''__pow__''"

fun reflected_name :: "binop \<Rightarrow> string" where
  "reflected_name Add = ''__radd__''"
| "reflected_name Sub = ''__rsub__''"
| "reflected_name Mul = ''__rmul__''"
| "reflected_name Truediv = ''__rtruediv__''"
| "reflected_name Pow = ''__rpow__''"

text \<open>The body bound to a method name in the class; \<open>None\<close> when the class has no such method.\<close>

definition lookup_method :: "string \<Rightarrow> (heap \<Rightarrow> ref \<Rightarrow> pyobj \<Rightarrow> (error + ref) \<times> heap) option" where
  "lookup_method name =
     (if name \<notin> set Value_methods then None
      else if name = ''__add__'' then Some Value_add
      else if name = ''__radd__'' then Some Value_radd
      else if name = ''__sub__'' then Some Value_sub
      else if name = ''__mul__'' then Some Value_mul
      else if name = ''__rmul__'' then Some Value_rmul
      else if name = ''__pow__'' then Some Value_pow
      else if name = ''__truediv__'' then Some Value_truediv
      else None)"

text \<open>The operators on two plain numbers.\<close>

definition num_binop :: "binop \<Rightarrow> real \<Rightarrow> real \<Rightarrow> error + real" where
  "num_binop bop x y =
     (case bop of
        Add \<Rightarrow> Inr (x + y)
      | Sub \<Rightarrow> Inr (x - y)
      | Mul \<Rightarrow> Inr (x * y)
      | Truediv \<Rightarrow> (if y = 0 then Inl ZeroDivisionError else Inr (x / y))
      | Pow \<Rightarrow> py_pow x y)"

definition py_binop :: "binop \<Rightarrow> heap \<Rightarrow> pyobj \<Rightarrow> pyobj \<Rightarrow> (error + pyobj) \<times> heap" where
  "py_binop bop h l r =
     (case l of
        PVal a \<Rightarrow>
          (case lookup_method (method_name bop) of
             Some m \<Rightarrow> wrap (m h a r)
           | None \<Rightarrow> (Inl TypeError, h))
      | PNum x \<Rightarrow>
          (case r of
             PNum y \<Rightarrow> (case num_binop bop x y of Inl e \<Rightarrow> (Inl e, h) | Inr d \<Rightarrow> (Inr (PNum d), h))
           | PVal b \<Rightarrow>
               (case lookup_method (reflected_name bop) of
                  Some m \<Rightarrow> wrap (m h b l)
                | None \<Rightarrow> (Inl TypeError, h))
           | PNone \<Rightarrow> (Inl TypeError, h))
      | PNone \<Rightarrow>
          (case r of
             PVal b \<Rightarrow>
               (case lookup_method (reflected_name bop) of
                  Some m \<Rightarrow> wrap (m h b l)
                | None \<Rightarrow> (Inl TypeError, h))
           | _ \<Rightarrow> (Inl TypeError, h)))"

subsection \<open>The backward pass\<close>

text \<open>The statement \<open>r.grad += x\<close>.\<close>

definition add_grad :: "heap \<Rightarrow> ref \<Rightarrow> real \<Rightarrow> heap" where
  "add_grad h r x = h[r := (h ! r)\<lparr>grad := grad (h ! r) + x\<rparr>]"

text \<open>
  Calling a closure. The statements run one after the other, each reading the store that
  the one before it left:
  \<^verbatim>\<open>
  # __add__                                  # __mul__
  if isinstance(other, Value):               if isinstance(other, Value):
      self.grad += 1.0 * out.grad                self.grad += other.data * out.grad
      other.grad += 1.0 * out.grad               other.grad += self.data * out.grad
  else:                                      else:
      self.grad += 1.0 * out.grad                self.grad += other * out.grad
  # __pow__
  self.grad += (other * self.data ** (other - 1)) * out.grad
  # tanh
  self.grad += (1 - t**2) * out.grad
  # exp
  self.grad += out.data * out.grad
  \<close>
\<close>

fun call_closure :: "heap \<Rightarrow> closure \<Rightarrow> error + heap" where
  "call_closure h Noop = Inr h"
| "call_closure h (AddBack self (PVal b) out) =
     (let h1 = add_grad h self (1 * grad (h ! out));
          h2 = add_grad h1 b (1 * grad (h1 ! out))
      in Inr h2)"
| "call_closure h (AddBack self other out) = Inr (add_grad h self (1 * grad (h ! out)))"
| "call_closure h (MulBack self (PVal b) out) =
     (let h1 = add_grad h self (data (h ! b) * grad (h ! out));
          h2 = add_grad h1 b (data (h1 ! self) * grad (h1 ! out))
      in Inr h2)"
| "call_closure h (MulBack self (PNum k) out) = Inr (add_grad h self (k * grad (h ! out)))"
| "call_closure h (MulBack self PNone out) = Inl TypeError"
| "call_closure h (PowBack self p out) =
     (case py_pow (data (h ! self)) (p - 1) of
        Inl e \<Rightarrow> Inl e
      | Inr d \<Rightarrow> Inr (add_grad h self ((p * d) * grad (h ! out))))"
| "call_closure h (TanhBack self t out) = Inr (add_grad h self ((1 - t ^ 2) * grad (h ! out)))"
| "call_closure h (ExpBack self out) = Inr (add_grad h self (data (h ! out) * grad (h ! out)))"

text \<open>
  \<^verbatim>\<open>
  def build_topo(v):
      if v not in visited:
          visited.add(v)
          for child in v._prev:
              build_topo(child)
          topo.append(v)
  \<close>
  The state is the pair of \<open>visited\<close> and \<open>topo\<close>. The first argument is the number of
  nested calls of \<open>build_topo\<close> that the interpreter still allows: Python raises
  \<open>RecursionError\<close> beyond its recursion limit, and the result is \<open>None\<close> then. The loop
  over the children runs in the frame of its call.
\<close>

fun build_topo :: "nat \<Rightarrow> heap \<Rightarrow> ref \<Rightarrow> ref set \<times> ref list \<Rightarrow> (ref set \<times> ref list) option"
  and for_children :: "nat \<Rightarrow> heap \<Rightarrow> ref list \<Rightarrow> ref set \<times> ref list \<Rightarrow> (ref set \<times> ref list) option"
where
  "build_topo 0 h v s = None"
| "build_topo (Suc n) h v (visited, topo) =
     (if v \<notin> visited then
        (case for_children n h (u_prev (h ! v)) (insert v visited, topo) of
           None \<Rightarrow> None
         | Some (visited', topo') \<Rightarrow> Some (visited', topo' @ [v]))
      else Some (visited, topo))"
| "for_children n h [] s = Some s"
| "for_children n h (child # rest) s =
     (case build_topo n h child s of
        None \<Rightarrow> None
      | Some s' \<Rightarrow> for_children n h rest s')"

text \<open>\<^verbatim>\<open>for node in reversed(topo): node._backward()\<close>, given the reversed list.\<close>

fun call_all :: "ref list \<Rightarrow> heap \<Rightarrow> error + heap" where
  "call_all [] h = Inr h"
| "call_all (node # rest) h =
     (case call_closure h (u_backward (h ! node)) of
        Inl e \<Rightarrow> Inl e
      | Inr h' \<Rightarrow> call_all rest h')"

text \<open>
  \<^verbatim>\<open>
  def backward(self):
      topo = []
      visited = set()
      def build_topo(v): ...
      build_topo(self)
      self.grad = 1.0
      for node in reversed(topo):
          node._backward()
  \<close>
\<close>

definition backward :: "nat \<Rightarrow> heap \<Rightarrow> ref \<Rightarrow> error + heap" where
  "backward depth h self =
     (case build_topo depth h self ({}, []) of
        None \<Rightarrow> Inl RecursionError
      | Some (visited, topo) \<Rightarrow> call_all (rev topo) (h[self := (h ! self)\<lparr>grad := 1\<rparr>]))"

subsection \<open>Well-formed stores\<close>

text \<open>
  A store is acyclic when some rank in the natural numbers strictly decreases along
  every edge from a consumer to one of its operands.
\<close>

definition dag :: "heap \<Rightarrow> (ref \<Rightarrow> nat) \<Rightarrow> bool" where
  "dag h rank \<longleftrightarrow>
     (\<forall>i \<in> {..<length h}. \<forall>c \<in> set (u_prev (h ! i)). c < length h \<and> rank c < rank i)"

text \<open>The objects that a closure writes, and the object whose \<open>grad\<close> it reads.\<close>

fun writes :: "closure \<Rightarrow> ref set" where
  "writes Noop = {}"
| "writes (AddBack self (PVal b) out) = {self, b}"
| "writes (AddBack self other out) = {self}"
| "writes (MulBack self (PVal b) out) = {self, b}"
| "writes (MulBack self other out) = {self}"
| "writes (PowBack self p out) = {self}"
| "writes (TanhBack self t out) = {self}"
| "writes (ExpBack self out) = {self}"

fun closure_out :: "closure \<Rightarrow> ref option" where
  "closure_out Noop = None"
| "closure_out (AddBack self other out) = Some out"
| "closure_out (MulBack self other out) = Some out"
| "closure_out (PowBack self p out) = Some out"
| "closure_out (TanhBack self t out) = Some out"
| "closure_out (ExpBack self out) = Some out"

text \<open>
  The invariant of the stores that the constructor and the operations build: the
  operands of an object were allocated before it, \<open>_prev\<close> has no duplicates, and the
  closure of an object writes operands of that object only and has that object as its
  \<open>out\<close>.
\<close>

definition wf_node :: "ref \<Rightarrow> Value \<Rightarrow> bool" where
  "wf_node i v \<longleftrightarrow>
     distinct (u_prev v) \<and> (\<forall>c \<in> set (u_prev v). c < i) \<and>
     writes (u_backward v) \<subseteq> set (u_prev v) \<and>
     (closure_out (u_backward v) = None \<or> closure_out (u_backward v) = Some i)"

definition wf_heap :: "heap \<Rightarrow> bool" where
  "wf_heap h \<longleftrightarrow> (\<forall>i \<in> {..<length h}. wf_node i (h ! i))"

text \<open>The objects reachable from a root along \<open>_prev\<close>.\<close>

inductive_set reach :: "heap \<Rightarrow> ref \<Rightarrow> ref set" for h :: heap and rt :: ref where
  start: "rt \<in> reach h rt"
| step: "i \<in> reach h rt \<Longrightarrow> c \<in> set (u_prev (h ! i)) \<Longrightarrow> c \<in> reach h rt"

text \<open>Among the objects reachable from \<open>rt\<close>, only \<open>rt\<close> itself has \<open>v\<close> as an operand.\<close>

definition only_consumer :: "heap \<Rightarrow> ref \<Rightarrow> ref \<Rightarrow> bool" where
  "only_consumer h rt v \<longleftrightarrow> (\<forall>u \<in> reach h rt. u \<noteq> rt \<longrightarrow> v \<notin> set (u_prev (h ! u)))"

text \<open>In \<open>topo\<close>, every operand of an object stands before the object.\<close>

definition operands_first :: "heap \<Rightarrow> ref list \<Rightarrow> bool" where
  "operands_first h topo \<longleftrightarrow>
     (\<forall>i \<in> {..<length topo}. \<forall>c \<in> set (u_prev (h ! (topo ! i))). \<exists>j \<in> {..<i}. topo ! j = c)"

text \<open>
  The closures of \<open>__pow__\<close> compute \<open>self.data ** (other - 1)\<close> when called, which can
  fail; the closures of \<open>__mul__\<close> fail on a captured \<open>None\<close>. A store is safe when no
  closure in it fails.
\<close>

fun closure_safe :: "heap \<Rightarrow> closure \<Rightarrow> bool" where
  "closure_safe h (PowBack self p out) =
     (case py_pow (data (h ! self)) (p - 1) of Inr d \<Rightarrow> True | Inl e \<Rightarrow> False)"
| "closure_safe h (MulBack self PNone out) = False"
| "closure_safe h cl = True"

definition safe_heap :: "heap \<Rightarrow> bool" where
  "safe_heap h \<longleftrightarrow> (\<forall>i \<in> {..<length h}. closure_safe h (u_backward (h ! i)))"

subsection \<open>Notions used in the statements\<close>

text \<open>The test \<open>isinstance(other, (int, float))\<close>.\<close>

fun is_number :: "pyobj \<Rightarrow> bool" where
  "is_number (PNum k) = True"
| "is_number x = False"

text \<open>A reference held by the program points into the store.\<close>

fun valid_obj :: "heap \<Rightarrow> pyobj \<Rightarrow> bool" where
  "valid_obj h (PVal b) = (b < length h)"
| "valid_obj h x = True"

text \<open>
  A call that only builds: the objects of the store before the call are all still
  there, attribute by attribute, and a returned reference is one that the store did not
  have before.
\<close>

definition pure_builder :: "heap \<Rightarrow> (error + ref) \<times> heap \<Rightarrow> bool" where
  "pure_builder h res \<longleftrightarrow>
     take (length h) (snd res) = h \<and>
     (case fst res of Inr out \<Rightarrow> length h \<le> out \<and> out < length (snd res) | Inl e \<Rightarrow> True)"

text \<open>
  A call that returns a new object: it allocated \<open>n + 1\<close> objects, returns the
  reference of the last of them, and the objects of the store before the call are all
  still there, attribute by attribute.
\<close>

definition returns_new_node :: "heap \<Rightarrow> nat \<Rightarrow> (error + ref) \<times> heap \<Rightarrow> bool" where
  "returns_new_node h n res \<longleftrightarrow>
     fst res = Inr (length h + n) \<and> length (snd res) = Suc (length h + n) \<and>
     take (length h) (snd res) = h"

text \<open>
  The derived operations in the words of the specification: negate(a) is
  multiply(a, -1), subtract(a, b) is add(a, negate(b)), divide(a, b) is
  multiply(a, power(b, -1)), on nodes \<open>a\<close> and \<open>b\<close>.
\<close>

definition spec_negate :: "heap \<Rightarrow> ref \<Rightarrow> (error + ref) \<times> heap" where
  "spec_negate h a = Value_mul h a (PNum (- 1))"

definition spec_subtract :: "heap \<Rightarrow> ref \<Rightarrow> ref \<Rightarrow> (error + ref) \<times> heap" where
  "spec_subtract h a b =
     (case spec_negate h b of
        (Inl e, h1) \<Rightarrow> (Inl e, h1)
      | (Inr nb, h1) \<Rightarrow> Value_add h1 a (PVal nb))"

definition spec_divide :: "heap \<Rightarrow> ref \<Rightarrow> ref \<Rightarrow> (error + ref) \<times> heap" where
  "spec_divide h a b =
     (case Value_pow h b (PNum (- 1)) of
        (Inl e, h1) \<Rightarrow> (Inl e, h1)
      | (Inr pb, h1) \<Rightarrow> Value_mul h1 a (PVal pb))"

text \<open>Two stores that differ in the attribute \<open>grad\<close> at most.\<close>

definition same_shape :: "heap \<Rightarrow> heap \<Rightarrow> bool" where
  "same_shape h h' \<longleftrightarrow>
     length h' = length h \<and> (\<forall>i. (h' ! i)\<lparr>grad := 0\<rparr> = (h ! i)\<lparr>grad := 0\<rparr>)"

text \<open>
  What one call of a closure adds to \<open>u.grad\<close>, for each unit of \<open>out.grad\<close>: the sum of
  the local derivatives over the edges from \<open>out\<close> to \<open>u\<close>.
\<close>

fun coeff :: "heap \<Rightarrow> closure \<Rightarrow> ref \<Rightarrow> real" where
  "coeff h Noop u = 0"
| "coeff h (AddBack self (PVal b) out) u = (if u = self then 1 else 0) + (if u = b then 1 else 0)"
| "coeff h (AddBack self other out) u = (if u = self then 1 else 0)"
| "coeff h (MulBack self (PVal b) out) u =
     (if u = self then data (h ! b) else 0) + (if u = b then data (h ! self) else 0)"
| "coeff h (MulBack self (PNum k) out) u = (if u = self then k else 0)"
| "coeff h (MulBack self PNone out) u = 0"
| "coeff h (PowBack self p out) u =
     (if u = self then (case py_pow (data (h ! self)) (p - 1) of Inr d \<Rightarrow> p * d | Inl e \<Rightarrow> 0) else 0)"
| "coeff h (TanhBack self t out) u = (if u = self then 1 - t ^ 2 else 0)"
| "coeff h (ExpBack self out) u = (if u = self then data (h ! out) else 0)"

text \<open>The state of \<open>build_topo\<close>: what holds of it between two calls.\<close>

definition topo_inv :: "heap \<Rightarrow> ref set \<times> ref list \<Rightarrow> bool" where
  "topo_inv h s \<longleftrightarrow> set (snd s) \<subseteq> fst s \<and> distinct (snd s) \<and> operands_first h (snd s)"

text \<open>The objects whose call of \<open>build_topo\<close> has begun and not ended.\<close>

definition on_stack :: "ref set \<times> ref list \<Rightarrow> ref set" where
  "on_stack s = fst s - set (snd s)"

definition grows :: "ref set \<times> ref list \<Rightarrow> ref set \<times> ref list \<Rightarrow> ref list \<Rightarrow> bool" where
  "grows s s' ext \<longleftrightarrow> snd s' = snd s @ ext \<and> on_stack s' = on_stack s"

definition visit_ok :: "heap \<Rightarrow> (ref \<Rightarrow> nat) \<Rightarrow> nat \<Rightarrow> bool" where
  "visit_ok h rank n \<longleftrightarrow>
     (\<forall>v s. v < length h \<and> rank v < n \<and> topo_inv h s \<and> (\<forall>w \<in> on_stack s. rank v < rank w) \<longrightarrow>
        (\<exists>s' ext. build_topo n h v s = Some s' \<and> topo_inv h s' \<and> grows s s' ext \<and>
           v \<in> set (snd s') \<and> set ext \<subseteq> reach h v))"

subsection \<open>Example stores\<close>

text \<open>\<^verbatim>\<open>x = Value(3.0, label='x')\<close>\<close>

definition store_x :: heap where
  "store_x = snd (Value_init [] 3 [] OpNone ''x'')"

text \<open>\<^verbatim>\<open>x = Value(2.0, label='x'); y = x * 3; z = y * 5\<close>\<close>

definition store_chain :: heap where
  "store_chain =
     snd (Value_mul (snd (Value_mul (snd (Value_init [] 2 [] OpNone ''x'')) 0 (PNum 3))) 1 (PNum 5))"

text \<open>\<^verbatim>\<open>a = Value(2.0, label='a'); b = Value(5.0, label='b'); c = a * b; d = c + a\<close>\<close>

definition store_diamond :: heap where
  "store_diamond =
     snd (Value_add
       (snd (Value_mul
         (snd (Value_init (snd (Value_init [] 2 [] OpNone ''a'')) 5 [] OpNone ''b'')) 0 (PVal 1)))
       2 (PVal 0))"


text \<open>A store with its gradients replaced, object by object.\<close>

definition with_grads :: "heap \<Rightarrow> real list \<Rightarrow> heap" where
  "with_grads h gs = map (\<lambda>(n, g). n\<lparr>grad := g\<rparr>) (zip h gs)"

text \<open>The store of \<open>x\<close>, \<open>y\<close>, \<open>z\<close> after one and after two calls of \<open>z.backward()\<close>.\<close>

definition store_chain_once :: heap where
  "store_chain_once = with_grads store_chain [15, 5, 1]"

definition store_chain_twice :: heap where
  "store_chain_twice = with_grads store_chain [45, 10, 1]"

section \<open>The order built by \<open>build_topo\<close>\<close>

lemma operands_first_iff:
  "operands_first h topo \<longleftrightarrow>
     (\<forall>i < length topo. \<forall>c \<in> set (u_prev (h ! (topo ! i))). \<exists>j < i. topo ! j = c)"
  unfolding operands_first_def by (simp add: Ball_def Bex_def)

lemma dag_iff:
  "dag h rank \<longleftrightarrow>
     (\<forall>i < length h. \<forall>c \<in> set (u_prev (h ! i)). c < length h \<and> rank c < rank i)"
  unfolding dag_def by (simp add: Ball_def)

lemma operands_first_snoc:
  assumes "operands_first h topo" and "set (u_prev (h ! v)) \<subseteq> set topo"
  shows "operands_first h (topo @ [v])"
  unfolding operands_first_iff
proof (intro allI impI ballI)
  fix i c
  assume i: "i < length (topo @ [v])" and c: "c \<in> set (u_prev (h ! ((topo @ [v]) ! i)))"
  show "\<exists>j<i. (topo @ [v]) ! j = c"
  proof (cases "i < length topo")
    case True
    then have "(topo @ [v]) ! i = topo ! i" by (simp add: nth_append)
    with c have "c \<in> set (u_prev (h ! (topo ! i)))" by simp
    with assms(1) True have "\<exists>j<i. topo ! j = c"
      unfolding operands_first_iff by simp
    then obtain j where j: "j < i" "topo ! j = c" by blast
    from j(1) True have "(topo @ [v]) ! j = topo ! j" by (simp add: nth_append)
    with j show ?thesis by metis
  next
    case False
    with i have eq: "i = length topo" by simp
    then have "(topo @ [v]) ! i = v" by simp
    with c assms(2) have "c \<in> set topo" by auto
    then obtain j where j: "j < length topo" "topo ! j = c" unfolding in_set_conv_nth by blast
    from j(1) have "(topo @ [v]) ! j = topo ! j" by (simp add: nth_append)
    with j eq show ?thesis by metis
  qed
qed

lemma reach_trans: "u \<in> reach h c \<Longrightarrow> c \<in> reach h v \<Longrightarrow> u \<in> reach h v"
  by (induction rule: reach.induct) (auto intro: reach.step)

lemma reach_child: "c \<in> set (u_prev (h ! v)) \<Longrightarrow> reach h c \<subseteq> reach h v"
  using reach_trans reach.step reach.start by blast

lemma for_children_ok:
  assumes V: "visit_ok h rank n"
  shows "\<lbrakk>\<forall>c \<in> set cs. c < length h \<and> rank c < n \<and> (\<forall>w \<in> on_stack s. rank c < rank w); topo_inv h s\<rbrakk>
     \<Longrightarrow> \<exists>s' ext. for_children n h cs s = Some s' \<and> topo_inv h s' \<and> grows s s' ext \<and>
           set cs \<subseteq> set (snd s') \<and> set ext \<subseteq> (\<Union>c \<in> set cs. reach h c)"
proof (induction cs arbitrary: s)
  case Nil
  then show ?case by (auto simp: grows_def)
next
  case (Cons c cs)
  from Cons.prems have c: "c < length h" "rank c < n" "\<forall>w \<in> on_stack s. rank c < rank w"
    by auto
  from V c Cons.prems(2) obtain s1 e1 where
    s1: "build_topo n h c s = Some s1" "topo_inv h s1" "grows s s1 e1" "c \<in> set (snd s1)"
        "set e1 \<subseteq> reach h c"
    unfolding visit_ok_def by blast
  from s1(3) have st: "on_stack s1 = on_stack s" by (simp add: grows_def)
  from Cons.prems(1) st have "\<forall>c \<in> set cs. c < length h \<and> rank c < n \<and> (\<forall>w \<in> on_stack s1. rank c < rank w)"
    by simp
  from Cons.IH[OF this s1(2)] obtain s2 e2 where
    s2: "for_children n h cs s1 = Some s2" "topo_inv h s2" "grows s1 s2 e2"
        "set cs \<subseteq> set (snd s2)" "set e2 \<subseteq> (\<Union>c \<in> set cs. reach h c)"
    by blast
  have g: "grows s s2 (e1 @ e2)" using s1(3) s2(3) by (simp add: grows_def)
  have "c \<in> set (snd s2)" using s1(4) s2(3) by (simp add: grows_def)
  moreover have "set (e1 @ e2) \<subseteq> (\<Union>c \<in> set (c # cs). reach h c)" using s1(5) s2(5) by auto
  ultimately show ?case using s1(1) s2 g by (intro exI[of _ s2] exI[of _ "e1 @ e2"]) simp
qed

lemma visit_ok_all:
  assumes D: "dag h rank"
  shows "visit_ok h rank n"
proof (induction n)
  case 0
  show ?case by (simp add: visit_ok_def)
next
  case (Suc n)
  show ?case unfolding visit_ok_def
  proof (intro allI impI)
    fix v s
    assume A: "v < length h \<and> rank v < Suc n \<and> topo_inv h s \<and> (\<forall>w \<in> on_stack s. rank v < rank w)"
    obtain vis topo where s: "s = (vis, topo)" by (cases s)
    show "\<exists>s' ext. build_topo (Suc n) h v s = Some s' \<and> topo_inv h s' \<and> grows s s' ext \<and>
           v \<in> set (snd s') \<and> set ext \<subseteq> reach h v"
    proof (cases "v \<in> vis")
      case True
      have "v \<in> set topo"
      proof (rule ccontr)
        assume "v \<notin> set topo"
        with True s have "v \<in> on_stack s" by (simp add: on_stack_def)
        with A show False by auto
      qed
      with True A s show ?thesis
        by (intro exI[of _ s] exI[of _ "[]"]) (simp add: grows_def)
    next
      case False
      let ?s0 = "(insert v vis, topo)"
      let ?cs = "u_prev (h ! v)"
      from A s have inv: "set topo \<subseteq> vis" "distinct topo" "operands_first h topo"
        by (simp_all add: topo_inv_def)
      from False inv(1) have vt: "v \<notin> set topo" by auto
      have inv0: "topo_inv h ?s0" using inv by (auto simp: topo_inv_def)
      have st0: "on_stack ?s0 = insert v (on_stack s)" using s vt by (auto simp: on_stack_def)
      have cs: "\<forall>c \<in> set ?cs. c < length h \<and> rank c < n \<and> (\<forall>w \<in> on_stack ?s0. rank c < rank w)"
      proof
        fix c assume c: "c \<in> set ?cs"
        with D A have "c < length h" "rank c < rank v" unfolding dag_iff by blast+
        with A st0 show "c < length h \<and> rank c < n \<and> (\<forall>w \<in> on_stack ?s0. rank c < rank w)"
          by force
      qed
      from for_children_ok[OF Suc cs inv0] obtain s1 e1 where
        s1: "for_children n h ?cs ?s0 = Some s1" "topo_inv h s1" "grows ?s0 s1 e1"
            "set ?cs \<subseteq> set (snd s1)" "set e1 \<subseteq> (\<Union>c \<in> set ?cs. reach h c)"
        by blast
      obtain vis1 topo1 where s1eq: "s1 = (vis1, topo1)" by (cases s1)
      from s1(3) s1eq have t1: "topo1 = topo @ e1" by (simp add: grows_def)
      from s1(3) have "on_stack s1 = on_stack ?s0" by (simp add: grows_def)
      with st0 have st1: "on_stack s1 = insert v (on_stack s)" by simp
      from st1 s1eq have v1: "v \<in> vis1" "v \<notin> set topo1" by (auto simp: on_stack_def)
      from s1(2) s1eq have inv1: "set topo1 \<subseteq> vis1" "distinct topo1" "operands_first h topo1"
        by (simp_all add: topo_inv_def)
      let ?s' = "(vis1, topo1 @ [v])"
      have res: "build_topo (Suc n) h v s = Some ?s'"
        using False s s1(1) s1eq by simp
      have "operands_first h (topo1 @ [v])"
        using operands_first_snoc[OF inv1(3)] s1(4) s1eq by simp
      then have inv': "topo_inv h ?s'" using inv1 v1 by (simp add: topo_inv_def)
      have "on_stack ?s' = on_stack s1 - {v}" using s1eq by (auto simp: on_stack_def)
      also have "\<dots> = on_stack s" using st1 s False by (auto simp: on_stack_def)
      finally have g: "grows s ?s' (e1 @ [v])" using t1 s by (simp add: grows_def)
      have "set e1 \<subseteq> reach h v"
      proof
        fix u assume "u \<in> set e1"
        with s1(5) obtain c where "c \<in> set ?cs" "u \<in> reach h c" by blast
        then show "u \<in> reach h v" using reach_child by blast
      qed
      then have e: "set (e1 @ [v]) \<subseteq> reach h v" by (simp add: reach.start)
      have vin: "v \<in> set (snd ?s')" by simp
      from res inv' g vin e show ?thesis by blast
    qed
  qed
qed

lemma visit_okD:
  assumes "visit_ok h rank n" "v < length h" "rank v < n" "topo_inv h s"
    "\<forall>w \<in> on_stack s. rank v < rank w"
  shows "\<exists>s' ext. build_topo n h v s = Some s' \<and> topo_inv h s' \<and> grows s s' ext \<and>
           v \<in> set (snd s') \<and> set ext \<subseteq> reach h v"
  using assms unfolding visit_ok_def by blast

lemma build_topo_correct:
  assumes "dag h rank" and "rt < length h" and "rank rt < depth"
  shows "\<exists>visited topo. build_topo depth h rt ({}, []) = Some (visited, topo) \<and>
           distinct topo \<and> operands_first h topo \<and> set topo \<subseteq> reach h rt \<and> rt \<in> set topo"
proof -
  have i: "topo_inv h ({}, [])" by (simp add: topo_inv_def operands_first_def)
  have st: "\<forall>w \<in> on_stack ({}, []). rank rt < rank w" by (simp add: on_stack_def)
  from visit_okD[OF visit_ok_all[OF assms(1)] assms(2,3) i st] obtain s' ext where
    r0: "build_topo depth h rt ({}, []) = Some s' \<and> topo_inv h s' \<and> grows ({}, []) s' ext \<and>
       rt \<in> set (snd s') \<and> set ext \<subseteq> reach h rt"
    by (elim exE)
  then have r: "build_topo depth h rt ({}, []) = Some s'" "topo_inv h s'" "grows ({}, []) s' ext"
       "rt \<in> set (snd s')" "set ext \<subseteq> reach h rt"
    by simp_all
  obtain vis topo where s': "s' = (vis, topo)" by (cases s')
  from r(3) s' have "topo = ext" by (simp add: grows_def)
  with r s' show ?thesis by (simp add: topo_inv_def)
qed

lemma reach_in_topo:
  assumes "operands_first h topo" "rt \<in> set topo"
  shows "u \<in> reach h rt \<Longrightarrow> u \<in> set topo"
proof (induction rule: reach.induct)
  case start
  show ?case by (rule assms(2))
next
  case (step i c)
  from step.IH obtain k where k: "k < length topo" "topo ! k = i" unfolding in_set_conv_nth by blast
  with assms(1) step.hyps(2) obtain j where "j < k" "topo ! j = c"
    unfolding operands_first_iff by blast
  with k(1) show ?case by (metis less_trans nth_mem)
qed


text \<open>
  Claim C2. In an acyclic store, with enough recursion depth for the rank of the root,
  \<open>build_topo\<close> returns; the order it built holds each object at most once, holds
  exactly the objects reachable from the root, and has every operand of an object
  before the object.
\<close>

theorem topological_order_valid:
  assumes "dag h rank" and "rt < length h" and "rank rt < depth"
  shows "\<exists>visited topo. build_topo depth h rt ({}, []) = Some (visited, topo) \<and>
           distinct topo \<and> operands_first h topo \<and> set topo = reach h rt"
proof -
  from build_topo_correct[OF assms] obtain visited topo where
    t: "build_topo depth h rt ({}, []) = Some (visited, topo) \<and>
           distinct topo \<and> operands_first h topo \<and> set topo \<subseteq> reach h rt \<and> rt \<in> set topo"
    by (elim exE)
  then have "reach h rt \<subseteq> set topo" using reach_in_topo by blast
  with t show ?thesis by blast
qed

lemma dag_diamond: "dag store_diamond (\<lambda>i. i)"
  by (simp add: dag_def store_diamond_def Value_init_def Value_add_def Value_mul_def new_node_def set_backward_def lessThan_Suc eval_nat_numeral)

theorem topological_order_valid_witness:
  "dag store_diamond (\<lambda>i. i) \<and> (3::nat) < length store_diamond \<and> (3::nat) < 4 \<and>
   (\<exists>visited topo. build_topo 4 store_diamond 3 ({}, []) = Some (visited, topo) \<and>
      distinct topo \<and> operands_first store_diamond topo \<and> set topo = reach store_diamond 3)"
proof -
  have d: "dag store_diamond (\<lambda>i. i)" by (rule dag_diamond)
  have l: "(3::nat) < length store_diamond"
    by (simp add: store_diamond_def Value_init_def Value_add_def Value_mul_def new_node_def set_backward_def)
  have r: "(3::nat) < 4" by simp
  from topological_order_valid[OF d l r] d l r show ?thesis by simp
qed

lemmas store_defs = store_x_def store_chain_def store_diamond_def
  Value_init_def Value_add_def Value_mul_def new_node_def set_backward_def

section \<open>The forward operations\<close>

lemmas forward_defs =
  Value_add_def Value_mul_def Value_pow_def Value_neg_def Value_sub_def Value_truediv_def
  Value_tanh_def Value_exp_def Value_radd_def Value_rmul_def new_node_def Value_init_def
  set_backward_def py_neg_def py_pow_obj_def wrap_def

lemmas dispatch_defs = py_binop_def lookup_method_def Value_methods_def

text \<open>
  Claim C4. \<open>__pow__\<close> with an exponent that is not a number (another \<open>Value\<close>, or
  \<open>None\<close>) fails on its first statement, the \<open>assert\<close>; the store it returns is the
  store it was given. The same holds of the infix form \<open>a ** exponent\<close>.
\<close>

theorem power_rejects_non_number:
  assumes "\<not> is_number exponent"
  shows "Value_pow h a exponent = (Inl AssertionError, h) \<and>
         py_binop Pow h (PVal a) exponent = (Inl AssertionError, h)"
  using assms by (cases exponent) (simp_all add: Value_pow_def dispatch_defs wrap_def)

theorem power_rejects_non_number_witness:
  "\<not> is_number (PVal 0) \<and> Value_pow store_x 0 (PVal 0) = (Inl AssertionError, store_x) \<and>
   py_binop Pow store_x (PVal 0) (PVal 0) = (Inl AssertionError, store_x)"
  using power_rejects_non_number[of "PVal 0" store_x 0] by simp

text \<open>
  Claim C7. \<open>k + a\<close> and \<open>a + k\<close> return the same reference and the same store, and so
  do \<open>k * a\<close> and \<open>a * k\<close>; all four build the new object.
\<close>

theorem reflected_add_mul_same:
  "py_binop Add h (PNum k) (PVal a) = py_binop Add h (PVal a) (PNum k) \<and>
   py_binop Mul h (PNum k) (PVal a) = py_binop Mul h (PVal a) (PNum k) \<and>
   fst (py_binop Add h (PVal a) (PNum k)) = Inr (PVal (length h)) \<and>
   fst (py_binop Mul h (PVal a) (PNum k)) = Inr (PVal (length h))"
  by (simp add: dispatch_defs forward_defs)

text \<open>
  Claim C10. \<open>k - a\<close> and \<open>k / a\<close> raise \<open>TypeError\<close> and leave the store as it was:
  the class has no \<open>__rsub__\<close> and no \<open>__rtruediv__\<close>. \<open>k + a\<close> and \<open>k * a\<close> build
  an object.
\<close>

theorem reflected_sub_div_missing:
  "py_binop Sub h (PNum k) (PVal a) = (Inl TypeError, h) \<and>
   py_binop Truediv h (PNum k) (PVal a) = (Inl TypeError, h) \<and>
   fst (py_binop Add h (PNum k) (PVal a)) = Inr (PVal (length h)) \<and>
   fst (py_binop Mul h (PNum k) (PVal a)) = Inr (PVal (length h))"
  by (simp add: dispatch_defs forward_defs)

text \<open>
  Claim C8. On nodes, \<open>__neg__\<close>, \<open>__sub__\<close> and \<open>__truediv__\<close> are the compositions
  that the specification names, as methods and as the operators \<open>-a\<close>, \<open>a - b\<close>,
  \<open>a / b\<close>: they return the same reference and the same store, so the same values
  and closures.
\<close>

theorem derived_operations_are_compositions:
  "Value_neg h a = spec_negate h a \<and>
   py_neg h (PVal a) = wrap (spec_negate h a) \<and>
   Value_sub h a (PVal b) = spec_subtract h a b \<and>
   py_binop Sub h (PVal a) (PVal b) = wrap (spec_subtract h a b) \<and>
   Value_truediv h a (PVal b) = spec_divide h a b \<and>
   py_binop Truediv h (PVal a) (PVal b) = wrap (spec_divide h a b)"
  by (simp add: dispatch_defs spec_negate_def spec_subtract_def spec_divide_def
        Value_neg_def Value_sub_def Value_truediv_def py_neg_def py_pow_obj_def wrap_def
        split: prod.splits sum.splits)





















lemma returns_pure: "returns_new_node h n res \<Longrightarrow> pure_builder h res"
  by (simp add: returns_new_node_def pure_builder_def)







section \<open>The effect of the closures\<close>

lemma length_add_grad: "length (add_grad h r x) = length h"
  by (simp add: add_grad_def)

lemma nth_add_grad:
  "add_grad h r x ! u = (if u = r \<and> r < length h then (h ! r)\<lparr>grad := grad (h ! r) + x\<rparr> else h ! u)"
proof (cases "u = r")
  case True
  show ?thesis
  proof (cases "r < length h")
    case True
    with \<open>u = r\<close> show ?thesis by (simp add: add_grad_def)
  next
    case False
    then have "h[r := (h ! r)\<lparr>grad := grad (h ! r) + x\<rparr>] = h" by (simp add: list_update_beyond)
    with False show ?thesis by (simp add: add_grad_def)
  qed
next
  case False
  then show ?thesis by (simp add: add_grad_def)
qed

lemma same_shape_refl: "same_shape h h"
  by (simp add: same_shape_def)

lemma same_shape_trans: "same_shape h h1 \<Longrightarrow> same_shape h1 h2 \<Longrightarrow> same_shape h h2"
  by (simp add: same_shape_def)

lemma same_shape_add_grad: "same_shape h (add_grad h r x)"
  by (simp add: same_shape_def length_add_grad nth_add_grad)

lemma same_shape_seed: "same_shape h (h[r := (h ! r)\<lparr>grad := g\<rparr>])"
proof -
  have "(h[r := (h ! r)\<lparr>grad := g\<rparr>] ! i)\<lparr>grad := 0\<rparr> = (h ! i)\<lparr>grad := 0\<rparr>" for i
  proof (cases "i = r \<and> r < length h")
    case True
    then show ?thesis by simp
  next
    case False
    then have "h[r := (h ! r)\<lparr>grad := g\<rparr>] ! i = h ! i"
      by (cases "i = r") (simp_all add: list_update_beyond)
    then show ?thesis by simp
  qed
  then show ?thesis by (simp add: same_shape_def)
qed

lemma same_shape_fields:
  assumes "same_shape h h'"
  shows "data (h' ! i) = data (h ! i)" "u_backward (h' ! i) = u_backward (h ! i)"
    "u_prev (h' ! i) = u_prev (h ! i)" "length h' = length h"
proof -
  from assms have e: "(h' ! i)\<lparr>grad := 0\<rparr> = (h ! i)\<lparr>grad := 0\<rparr>" by (simp add: same_shape_def)
  have "data ((h' ! i)\<lparr>grad := 0\<rparr>) = data ((h ! i)\<lparr>grad := 0\<rparr>)" by (simp only: e)
  then show "data (h' ! i) = data (h ! i)" by simp
  have "u_backward ((h' ! i)\<lparr>grad := 0\<rparr>) = u_backward ((h ! i)\<lparr>grad := 0\<rparr>)" by (simp only: e)
  then show "u_backward (h' ! i) = u_backward (h ! i)" by simp
  have "u_prev ((h' ! i)\<lparr>grad := 0\<rparr>) = u_prev ((h ! i)\<lparr>grad := 0\<rparr>)" by (simp only: e)
  then show "u_prev (h' ! i) = u_prev (h ! i)" by simp
  from assms show "length h' = length h" by (simp add: same_shape_def)
qed

lemma same_shape_add_grad2: "same_shape h (add_grad (add_grad h r x) r' x')"
  using same_shape_trans[OF same_shape_add_grad same_shape_add_grad] .

lemma call_closure_shape: "call_closure h cl = Inr h' \<Longrightarrow> same_shape h h'"
  by (induction h cl rule: call_closure.induct)
     (auto simp: Let_def same_shape_refl same_shape_add_grad same_shape_add_grad2 split: sum.splits)

lemma call_closure_untouched:
  "call_closure h cl = Inr h' \<Longrightarrow> u \<notin> writes cl \<Longrightarrow> h' ! u = h ! u"
  by (induction h cl rule: call_closure.induct)
     (auto simp: Let_def nth_add_grad split: sum.splits)

lemma call_closure_total: "closure_safe h cl \<Longrightarrow> \<exists>h'. call_closure h cl = Inr h'"
  by (induction h cl rule: call_closure.induct) (auto simp: Let_def split: sum.splits)

lemma coeff_untouched: "u \<notin> writes cl \<Longrightarrow> coeff h cl u = 0"
  by (induction h cl u rule: coeff.induct) auto

lemma call_closure_effect:
  assumes "call_closure h cl = Inr h'"
    and "closure_out cl = None \<or> closure_out cl = Some out"
    and "out \<notin> writes cl" and "writes cl \<subseteq> {..<length h}"
  shows "grad (h' ! u) = grad (h ! u) + coeff h cl u * grad (h ! out)"
  using assms
  by (induction h cl rule: call_closure.induct)
     (auto simp: Let_def nth_add_grad length_add_grad algebra_simps split: sum.splits)

lemma coeff_shape: "same_shape h h' \<Longrightarrow> coeff h' cl u = coeff h cl u"
  by (induction h cl u rule: coeff.induct) (simp_all add: same_shape_fields)

lemma closure_safe_shape: "same_shape h h' \<Longrightarrow> closure_safe h' cl = closure_safe h cl"
  by (induction h cl rule: closure_safe.induct) (simp_all add: same_shape_fields)

lemma safe_heap_shape: "same_shape h h' \<Longrightarrow> safe_heap h \<Longrightarrow> safe_heap h'"
  by (simp add: safe_heap_def same_shape_fields closure_safe_shape)

lemma wf_heap_shape: "same_shape h h' \<Longrightarrow> wf_heap h \<Longrightarrow> wf_heap h'"
  by (simp add: wf_heap_def wf_node_def same_shape_fields)

section \<open>The invariant of the stores\<close>

lemma wf_heap_iff: "wf_heap h \<longleftrightarrow> (\<forall>i < length h. wf_node i (h ! i))"
  by (simp add: wf_heap_def Ball_def)

lemma safe_heap_iff: "safe_heap h \<longleftrightarrow> (\<forall>i < length h. closure_safe h (u_backward (h ! i)))"
  by (simp add: safe_heap_def Ball_def)

lemma wf_heap_dag: "wf_heap h \<Longrightarrow> dag h (\<lambda>i. i)"
  unfolding dag_iff wf_heap_iff wf_node_def by (meson less_trans)

lemma reach_le:
  assumes "wf_heap h" "rt < length h"
  shows "u \<in> reach h rt \<Longrightarrow> u \<le> rt"
proof (induction rule: reach.induct)
  case start
  show ?case by simp
next
  case (step i c)
  from step.IH assms(2) have "i < length h" by simp
  with assms(1) step.hyps(2) have "c < i" unfolding wf_heap_iff wf_node_def by blast
  with step.IH show ?case by simp
qed

lemma reach_cases:
  "u \<in> reach h v \<Longrightarrow> u = v \<or> (\<exists>c \<in> set (u_prev (h ! v)). u \<in> reach h c)"
proof (induction rule: reach.induct)
  case start
  show ?case by simp
next
  case (step i c)
  show ?case
  proof (cases "i = v")
    case True
    with step.hyps(2) show ?thesis using reach.start by blast
  next
    case False
    with step.IH obtain c' where "c' \<in> set (u_prev (h ! v))" "i \<in> reach h c'" by blast
    with step.hyps(2) show ?thesis using reach.step by blast
  qed
qed

lemma reach_shape:
  assumes "same_shape h h'"
  shows "u \<in> reach h' rt \<Longrightarrow> u \<in> reach h rt"
proof (induction rule: reach.induct)
  case start
  show ?case by (rule reach.start)
next
  case (step i c)
  from step.hyps(2) have "c \<in> set (u_prev (h ! i))" by (simp add: same_shape_fields(3)[OF assms])
  with step.IH show ?case by (rule reach.step)
qed

lemma wf_heap_empty: "wf_heap []"
  by (simp add: wf_heap_def)

lemma wf_heap_snoc:
  assumes "wf_heap h" "wf_node (length h) n"
  shows "wf_heap (h @ [n])"
  unfolding wf_heap_iff
proof (intro allI impI)
  fix i assume "i < length (h @ [n])"
  then consider "i < length h" | "i = length h" by fastforce
  then show "wf_node i ((h @ [n]) ! i)"
  proof cases
    case 1
    with assms(1) show ?thesis unfolding wf_heap_iff by (simp add: nth_append)
  next
    case 2
    with assms(2) show ?thesis by simp
  qed
qed

lemma new_node_eq:
  "new_node h d cs opr cl =
     (Inr (length h),
      h @ [\<lparr>data = d, grad = 0, u_backward = cl (length h), u_prev = remdups cs, u_op = opr, label = []\<rparr>])"
  by (simp add: new_node_def Value_init_def set_backward_def)

lemma wf_heap_init: "wf_heap h \<Longrightarrow> wf_heap (snd (Value_init h d [] opr lbl))"
  by (simp add: Value_init_def wf_heap_snoc wf_node_def)

lemma wf_heap_new_node:
  assumes "wf_heap h" "set cs \<subseteq> {..<length h}" "writes (cl (length h)) \<subseteq> set cs"
    "closure_out (cl (length h)) = Some (length h)"
  shows "wf_heap (snd (new_node h d cs opr cl))"
  using assms by (auto simp: new_node_eq wf_node_def intro!: wf_heap_snoc)

lemma closure_safe_snoc:
  assumes "writes cl \<subseteq> {..<length h}"
  shows "closure_safe (h @ [n]) cl = closure_safe h cl"
  using assms by (induction h cl rule: closure_safe.induct) (simp_all add: nth_append)

lemma safe_heap_snoc:
  assumes "wf_heap h" "safe_heap h" "closure_safe (h @ [n]) (u_backward n)"
  shows "safe_heap (h @ [n])"
  unfolding safe_heap_iff
proof (intro allI impI)
  fix i assume "i < length (h @ [n])"
  then consider "i < length h" | "i = length h" by fastforce
  then show "closure_safe (h @ [n]) (u_backward ((h @ [n]) ! i))"
  proof cases
    case 1
    with assms(1) have "wf_node i (h ! i)" unfolding wf_heap_iff by blast
    with 1 have "writes (u_backward (h ! i)) \<subseteq> {..<length h}"
      unfolding wf_node_def by fastforce
    from closure_safe_snoc[OF this] 1 assms(2) show ?thesis
      unfolding safe_heap_iff by (simp add: nth_append)
  next
    case 2
    with assms(3) show ?thesis by simp
  qed
qed

lemma safe_heap_empty: "safe_heap []"
  by (simp add: safe_heap_def)

lemma safe_heap_init: "wf_heap h \<Longrightarrow> safe_heap h \<Longrightarrow> safe_heap (snd (Value_init h d cs opr lbl))"
  by (simp add: Value_init_def safe_heap_snoc)

lemma wf_heap_mul:
  "wf_heap h \<Longrightarrow> a < length h \<Longrightarrow> valid_obj h x \<Longrightarrow> wf_heap (snd (Value_mul h a x))"
  by (cases x) (simp_all add: Value_mul_def wf_heap_new_node)

lemma wf_heap_add:
  "wf_heap h \<Longrightarrow> a < length h \<Longrightarrow> valid_obj h x \<Longrightarrow> wf_heap (snd (Value_add h a x))"
  by (cases x) (simp_all add: Value_add_def wf_heap_new_node)

lemma wf_heap_pow:
  "wf_heap h \<Longrightarrow> a < length h \<Longrightarrow> wf_heap (snd (Value_pow h a x))"
  by (cases x) (simp_all add: Value_pow_def wf_heap_new_node split: sum.splits)

lemma wf_heap_tanh: "wf_heap h \<Longrightarrow> a < length h \<Longrightarrow> wf_heap (snd (Value_tanh h a))"
  by (simp add: Value_tanh_def Let_def wf_heap_new_node)

lemma wf_heap_exp: "wf_heap h \<Longrightarrow> a < length h \<Longrightarrow> wf_heap (snd (Value_exp h a))"
  by (simp add: Value_exp_def Let_def wf_heap_new_node)

lemma wf_heap_neg: "wf_heap h \<Longrightarrow> a < length h \<Longrightarrow> wf_heap (snd (Value_neg h a))"
  by (simp add: Value_neg_def wf_heap_mul)

lemma wf_heap_sub:
  assumes "wf_heap h" "a < length h" "valid_obj h x"
  shows "wf_heap (snd (Value_sub h a x))"
proof (cases x)
  case (PNum k)
  with assms show ?thesis by (simp add: Value_sub_def py_neg_def wf_heap_add)
next
  case (PVal b)
  with assms(3) have b: "b < length h" by simp
  obtain h1 where n: "Value_neg h b = (Inr (length h), h1)" and l: "length h1 = Suc (length h)"
    by (simp add: Value_neg_def Value_mul_def new_node_eq)
  have "wf_heap h1" using wf_heap_neg[OF assms(1) b] n by simp
  from wf_heap_add[OF this, of a "PVal (length h)"] assms(2) l
  have "wf_heap (snd (Value_add h1 a (PVal (length h))))" by simp
  moreover have "Value_sub h a x = Value_add h1 a (PVal (length h))"
    using PVal n by (simp add: Value_sub_def py_neg_def wrap_def)
  ultimately show ?thesis by simp
next
  case PNone
  with assms show ?thesis by (simp add: Value_sub_def py_neg_def)
qed

lemma wf_heap_truediv:
  assumes "wf_heap h" "a < length h" "valid_obj h x"
  shows "wf_heap (snd (Value_truediv h a x))"
proof (cases x)
  case (PNum k)
  with assms show ?thesis
    by (simp add: Value_truediv_def py_pow_obj_def wf_heap_mul split: sum.splits)
next
  case (PVal b)
  with assms(3) have b: "b < length h" by simp
  show ?thesis
  proof (cases "py_pow (data (h ! b)) (- 1)")
    case (Inl e)
    with PVal assms(1) show ?thesis
      by (simp add: Value_truediv_def py_pow_obj_def Value_pow_def wrap_def)
  next
    case (Inr d)
    obtain h1 where n: "Value_pow h b (PNum (- 1)) = (Inr (length h), h1)"
      and l: "length h1 = Suc (length h)"
      using Inr by (simp add: Value_pow_def new_node_eq)
    have "wf_heap h1" using wf_heap_pow[OF assms(1) b, of "PNum (- 1)"] n by simp
    from wf_heap_mul[OF this, of a "PVal (length h)"] assms(2) l
    have "wf_heap (snd (Value_mul h1 a (PVal (length h))))" by simp
    moreover have "Value_truediv h a x = Value_mul h1 a (PVal (length h))"
      using PVal n by (simp add: Value_truediv_def py_pow_obj_def wrap_def)
    ultimately show ?thesis by simp
  qed
next
  case PNone
  with assms show ?thesis by (simp add: Value_truediv_def py_pow_obj_def)
qed

lemma safe_heap_mul:
  "wf_heap h \<Longrightarrow> safe_heap h \<Longrightarrow> safe_heap (snd (Value_mul h a x))"
  by (cases x) (simp_all add: Value_mul_def new_node_eq safe_heap_snoc)

lemma safe_heap_add:
  "wf_heap h \<Longrightarrow> safe_heap h \<Longrightarrow> safe_heap (snd (Value_add h a x))"
  by (cases x) (simp_all add: Value_add_def new_node_eq safe_heap_snoc)

lemma wf_store_x: "wf_heap store_x"
  unfolding store_x_def by (rule wf_heap_init[OF wf_heap_empty])

lemma safe_store_x: "safe_heap store_x"
  unfolding store_x_def by (rule safe_heap_init[OF wf_heap_empty safe_heap_empty])

lemma wf_store_chain: "wf_heap store_chain"
  unfolding store_chain_def
  by (intro wf_heap_mul wf_heap_init wf_heap_empty) (simp_all add: Value_init_def Value_mul_def new_node_eq)

lemma safe_store_chain: "safe_heap store_chain"
  unfolding store_chain_def
  by (intro safe_heap_mul safe_heap_init wf_heap_mul wf_heap_init wf_heap_empty safe_heap_empty)
     (simp_all add: Value_init_def Value_mul_def new_node_eq)

section \<open>The backward pass\<close>

lemma call_all_frame:
  "\<lbrakk>safe_heap h; set ns \<subseteq> {..<length h}\<rbrakk> \<Longrightarrow>
     \<exists>h'. call_all ns h = Inr h' \<and> same_shape h h' \<and>
       (\<forall>u. (\<forall>n \<in> set ns. u \<notin> writes (u_backward (h ! n))) \<longrightarrow> h' ! u = h ! u)"
proof (induction ns arbitrary: h)
  case Nil
  then show ?case by (simp add: same_shape_refl)
next
  case (Cons n ns)
  from Cons.prems have n: "n < length h" by simp
  with Cons.prems(1) have "closure_safe h (u_backward (h ! n))" unfolding safe_heap_iff by blast
  from call_closure_total[OF this] obtain h1 where
    h1: "call_closure h (u_backward (h ! n)) = Inr h1" by blast
  from call_closure_shape[OF h1] have sh: "same_shape h h1" .
  from safe_heap_shape[OF sh Cons.prems(1)] have s1: "safe_heap h1" .
  from Cons.prems(2) same_shape_fields(4)[OF sh] have "set ns \<subseteq> {..<length h1}" by simp
  from Cons.IH[OF s1 this] obtain h2 where
    h2: "call_all ns h1 = Inr h2" "same_shape h1 h2"
        "\<forall>u. (\<forall>n \<in> set ns. u \<notin> writes (u_backward (h1 ! n))) \<longrightarrow> h2 ! u = h1 ! u"
    by blast
  have "h2 ! u = h ! u" if u: "\<forall>m \<in> set (n # ns). u \<notin> writes (u_backward (h ! m))" for u
  proof -
    from u have "u \<notin> writes (u_backward (h ! n))" by simp
    from call_closure_untouched[OF h1 this] have a: "h1 ! u = h ! u" .
    from u have "\<forall>m \<in> set ns. u \<notin> writes (u_backward (h1 ! m))"
      by (simp add: same_shape_fields(2)[OF sh])
    with h2(3) have "h2 ! u = h1 ! u" by blast
    with a show ?thesis by simp
  qed
  moreover have "call_all (n # ns) h = Inr h2" using h1 h2(1) by simp
  moreover have "same_shape h h2" using same_shape_trans[OF sh h2(2)] .
  ultimately show ?case by blast
qed

lemma build_topo_root:
  "build_topo depth h rt ({}, []) = Some (visited, topo) \<Longrightarrow> \<exists>rest. topo = rest @ [rt]"
  by (cases depth) (auto split: option.splits)

text \<open>
  One call of \<open>backward\<close> on a safe, well-formed store returns; it leaves the root
  with gradient 1 and adds to the gradient of \<open>v\<close> what the closure of the root
  contributes, for every \<open>v\<close> that no other reachable object has as an operand.
\<close>

lemma backward_effect:
  assumes wf: "wf_heap h" and safe: "safe_heap h" and rt: "rt < length h" and depth: "rt < depth"
    and v: "v \<noteq> rt" and only: "\<forall>u \<in> reach h rt. u \<noteq> rt \<longrightarrow> v \<notin> set (u_prev (h ! u))"
  shows "\<exists>h'. backward depth h rt = Inr h' \<and> same_shape h h' \<and> grad (h' ! rt) = 1 \<and>
           grad (h' ! v) = grad (h ! v) + coeff h (u_backward (h ! rt)) v"
proof -
  from build_topo_correct[OF wf_heap_dag[OF wf] rt depth] obtain visited topo where
    t0: "build_topo depth h rt ({}, []) = Some (visited, topo) \<and>
           distinct topo \<and> operands_first h topo \<and> set topo \<subseteq> reach h rt \<and> rt \<in> set topo"
    by (elim exE)
  then have t: "build_topo depth h rt ({}, []) = Some (visited, topo)" "distinct topo"
    "set topo \<subseteq> reach h rt" by simp_all
  from build_topo_root[OF t(1)] obtain rest where rest: "topo = rest @ [rt]" by blast
  with t(2,3) have r: "rt \<notin> set rest" "set rest \<subseteq> reach h rt" by simp_all
  have below: "n < rt" if "n \<in> set rest" for n
  proof -
    from that r have "n \<in> reach h rt" "n \<noteq> rt" by auto
    with reach_le[OF wf rt] show ?thesis by fastforce
  qed
  let ?h0 = "h[rt := (h ! rt)\<lparr>grad := 1\<rparr>]"
  let ?cl = "u_backward (h ! rt)"
  have sh0: "same_shape h ?h0" by (rule same_shape_seed)
  have safe0: "safe_heap ?h0" using safe_heap_shape[OF sh0 safe] .
  have cl0: "u_backward (?h0 ! rt) = ?cl" using same_shape_fields(2)[OF sh0] .
  from safe0 rt have "closure_safe ?h0 ?cl" unfolding safe_heap_iff using cl0 by (metis length_list_update)
  from call_closure_total[OF this] obtain hA where hA: "call_closure ?h0 ?cl = Inr hA" by blast
  from call_closure_shape[OF hA] have shA: "same_shape ?h0 hA" .
  from wf rt have wfn: "wf_node rt (h ! rt)" unfolding wf_heap_iff by blast
  then have w: "writes ?cl \<subseteq> set (u_prev (h ! rt))" "\<forall>c \<in> set (u_prev (h ! rt)). c < rt"
    "closure_out ?cl = None \<or> closure_out ?cl = Some rt"
    by (simp_all add: wf_node_def)
  from w(1,2) have rtw: "rt \<notin> writes ?cl" by blast
  from w(1,2) rt have wl: "writes ?cl \<subseteq> {..<length ?h0}" by fastforce
  from call_closure_effect[OF hA w(3) rtw wl, of v]
  have "grad (hA ! v) = grad (?h0 ! v) + coeff ?h0 ?cl v * grad (?h0 ! rt)" .
  moreover have "grad (?h0 ! rt) = 1" using rt by simp
  moreover have "?h0 ! v = h ! v" using v by simp
  moreover have "coeff ?h0 ?cl v = coeff h ?cl v" using coeff_shape[OF sh0] .
  ultimately have gv: "grad (hA ! v) = grad (h ! v) + coeff h ?cl v" by simp
  from call_closure_untouched[OF hA rtw] rt have grt: "grad (hA ! rt) = 1" by simp
  have safeA: "safe_heap hA" using safe_heap_shape[OF shA safe0] .
  have lenA: "length hA = length h" using same_shape_fields(4)[OF shA] by simp
  have "set (rev rest) \<subseteq> {..<length hA}" using below rt lenA by fastforce
  from call_all_frame[OF safeA this] obtain h' where
    h': "call_all (rev rest) hA = Inr h'" "same_shape hA h'"
        "\<forall>u. (\<forall>n \<in> set (rev rest). u \<notin> writes (u_backward (hA ! n))) \<longrightarrow> h' ! u = hA ! u"
    by blast
  have shhA: "same_shape h hA" using same_shape_trans[OF sh0 shA] .
  have nowrite: "v \<notin> writes (u_backward (hA ! n)) \<and> rt \<notin> writes (u_backward (hA ! n))"
    if n: "n \<in> set (rev rest)" for n
  proof -
    from n have nr: "n \<in> set rest" by simp
    from below[OF nr] rt have nl: "n < length h" by simp
    with wf have "wf_node n (h ! n)" unfolding wf_heap_iff by blast
    then have wn: "writes (u_backward (h ! n)) \<subseteq> set (u_prev (h ! n))"
      "\<forall>c \<in> set (u_prev (h ! n)). c < n" by (simp_all add: wf_node_def)
    from nr r have "n \<in> reach h rt" "n \<noteq> rt" by auto
    with only have "v \<notin> set (u_prev (h ! n))" by blast
    moreover from wn(2) below[OF nr] have "rt \<notin> set (u_prev (h ! n))" by fastforce
    ultimately show ?thesis using wn(1) same_shape_fields(2)[OF shhA, of n] by auto
  qed
  from h'(3) nowrite have "h' ! v = hA ! v" "h' ! rt = hA ! rt" by blast+
  with gv grt have res: "grad (h' ! rt) = 1" "grad (h' ! v) = grad (h ! v) + coeff h ?cl v" by simp_all
  have "backward depth h rt = call_all (rev topo) ?h0" using t(1) by (simp add: backward_def)
  also have "\<dots> = call_all (rev rest) hA" using rest hA cl0 by simp
  finally have "backward depth h rt = Inr h'" using h'(1) by simp
  moreover have "same_shape h h'" using same_shape_trans[OF shhA h'(2)] .
  ultimately show ?thesis using res by blast
qed

lemma writes_empty: "writes cl = {} \<Longrightarrow> cl = Noop"
  by (induction cl rule: writes.induct) simp_all

lemma leaf_closure:
  assumes "wf_node i n" "u_prev n = []"
  shows "u_backward n = Noop"
proof -
  from assms have "writes (u_backward n) = {}" by (simp add: wf_node_def)
  then show ?thesis by (rule writes_empty)
qed

text \<open>
  Claim C9. \<open>backward\<close> on an object without operands returns the store in which
  the gradient of that object is 1 and nothing else has changed.
\<close>

theorem backward_on_leaf:
  assumes "wf_heap h" and "rt < length h" and "u_prev (h ! rt) = []" and "0 < depth"
  shows "backward depth h rt = Inr (h[rt := (h ! rt)\<lparr>grad := 1\<rparr>])"
proof -
  from assms(4) obtain n where d: "depth = Suc n" by (cases depth) simp_all
  from assms(1,2) have "wf_node rt (h ! rt)" unfolding wf_heap_iff by blast
  from leaf_closure[OF this assms(3)] have cl: "u_backward (h ! rt) = Noop" .
  have "build_topo depth h rt ({}, []) = Some ({rt}, [rt])" using d assms(3) by simp
  then show ?thesis using cl assms(2) by (simp add: backward_def)
qed

theorem backward_on_leaf_witness:
  "wf_heap store_x \<and> (0::nat) < length store_x \<and> u_prev (store_x ! 0) = [] \<and> (0::nat) < 1 \<and>
   backward 1 store_x 0 = Inr (store_x[0 := (store_x ! 0)\<lparr>grad := 1\<rparr>])"
proof -
  have a: "(0::nat) < length store_x" "u_prev (store_x ! 0) = []"
    by (simp_all add: store_x_def Value_init_def)
  have b: "(0::nat) < 1" by simp
  from backward_on_leaf[OF wf_store_x a b] wf_store_x a b show ?thesis by simp
qed

text \<open>
  Claim C1. For \<open>y = x * x\<close> with \<open>x.grad\<close> zero, \<open>y.backward()\<close> returns and leaves
  \<open>x.grad\<close> equal to \<open>2 * x.data\<close>, whatever graph \<open>x\<close> itself was built from: the
  closure of \<open>y\<close> adds \<open>x.data\<close> to \<open>x.grad\<close> once as \<open>self\<close> and once as \<open>other\<close>.
\<close>

theorem shared_operand_accumulation:
  assumes wf: "wf_heap h" and safe: "safe_heap h" and x: "x < length h"
    and zero: "grad (h ! x) = 0" and depth: "length h < depth"
  shows "\<exists>y h1 h2. Value_mul h x (PVal x) = (Inr y, h1) \<and> backward depth h1 y = Inr h2 \<and>
           data (h2 ! x) = data (h ! x) \<and> grad (h2 ! x) = 2 * data (h2 ! x)"
proof -
  let ?y = "length h"
  let ?n = "\<lparr>data = data (h ! x) * data (h ! x), grad = 0, u_backward = MulBack x (PVal x) ?y,
             u_prev = [x], u_op = OpMul, label = []\<rparr>"
  let ?h1 = "h @ [?n]"
  have m: "Value_mul h x (PVal x) = (Inr ?y, ?h1)" by (simp add: Value_mul_def new_node_eq)
  have wf1: "wf_heap ?h1" using wf_heap_mul[OF wf x, of "PVal x"] x m by simp
  have safe1: "safe_heap ?h1" using safe_heap_mul[OF wf safe, of x "PVal x"] m by simp
  have y1: "?y < length ?h1" by simp
  have x1: "x < length ?h1" using x by simp
  have xy: "x \<noteq> ?y" using x by simp
  have only: "\<forall>u \<in> reach ?h1 ?y. u \<noteq> ?y \<longrightarrow> x \<notin> set (u_prev (?h1 ! u))"
  proof (intro ballI impI)
    fix u assume u: "u \<in> reach ?h1 ?y" "u \<noteq> ?y"
    from reach_cases[OF u(1)] u(2) have "u \<in> reach ?h1 x" by simp
    from reach_le[OF wf1 x1 this] have ux: "u \<le> x" .
    with x1 have "u < length ?h1" by simp
    with wf1 have "wf_node u (?h1 ! u)" unfolding wf_heap_iff by blast
    then have "\<forall>c \<in> set (u_prev (?h1 ! u)). c < u" by (simp add: wf_node_def)
    with ux show "x \<notin> set (u_prev (?h1 ! u))" by fastforce
  qed
  from backward_effect[OF wf1 safe1 y1 depth[unfolded atomize_eq] xy only] obtain h2 where
    h2: "backward depth ?h1 ?y = Inr h2" "same_shape ?h1 h2"
        "grad (h2 ! x) = grad (?h1 ! x) + coeff ?h1 (u_backward (?h1 ! ?y)) x"
    by blast
  have d1: "data (?h1 ! x) = data (h ! x)" "grad (?h1 ! x) = 0" using x zero by (simp_all add: nth_append)
  have d2: "data (h2 ! x) = data (h ! x)" using same_shape_fields(1)[OF h2(2), of x] d1 by simp
  have "coeff ?h1 (u_backward (?h1 ! ?y)) x = data (h ! x) + data (h ! x)" using d1 by simp
  with h2(3) d1 d2 have "grad (h2 ! x) = 2 * data (h2 ! x)" by simp
  with m h2(1) d2 show ?thesis by blast
qed

theorem shared_operand_accumulation_witness:
  "wf_heap store_x \<and> safe_heap store_x \<and> (0::nat) < length store_x \<and> grad (store_x ! 0) = 0 \<and>
   length store_x < 2 \<and>
   (\<exists>y h1 h2. Value_mul store_x 0 (PVal 0) = (Inr y, h1) \<and> backward 2 h1 y = Inr h2 \<and>
      data (h2 ! 0) = data (store_x ! 0) \<and> grad (h2 ! 0) = 2 * data (h2 ! 0))"
proof -
  have a: "(0::nat) < length store_x" "grad (store_x ! 0) = 0" "length store_x < 2"
    by (simp_all add: store_x_def Value_init_def)
  from shared_operand_accumulation[OF wf_store_x safe_store_x a] wf_store_x safe_store_x a
  show ?thesis by simp
qed

text \<open>
  Claim C3, as the specification states it, fails: in \<open>x = Value(2.0); y = x * 3;
  z = y * 5\<close> with all gradients zero, one call of \<open>z.backward()\<close> leaves \<open>x.grad\<close> at 15
  and a second call leaves it at 45, not 30; the gradient of the root \<open>z\<close> is 1 after
  either call, not 2 after the second.
\<close>

theorem backward_twice_counterexample:
  "map grad store_chain = [0, 0, 0] \<and> 0 \<in> reach store_chain 2 \<and>
   backward 3 store_chain 2 = Inr store_chain_once \<and>
   backward 3 store_chain_once 2 = Inr store_chain_twice \<and>
   grad (store_chain_once ! 0) = 15 \<and> grad (store_chain_twice ! 0) = 45 \<and>
   grad (store_chain_twice ! 0) \<noteq> 2 * grad (store_chain_once ! 0) \<and>
   grad (store_chain_once ! 2) = 1 \<and> grad (store_chain_twice ! 2) = 1"
proof -
  have p1: "u_prev (store_chain ! 2) = [1]" "u_prev (store_chain ! 1) = [0]"
    by (simp_all add: store_defs)
  have "1 \<in> reach store_chain 2" using reach.step[OF reach.start, of 1 store_chain 2] p1 by simp
  from reach.step[OF this, of 0] p1 have r: "0 \<in> reach store_chain 2" by simp
  have b1: "backward 3 store_chain 2 = Inr store_chain_once"
    by (simp add: store_defs backward_def add_grad_def with_grads_def store_chain_once_def eval_nat_numeral)
  have b2: "backward 3 store_chain_once 2 = Inr store_chain_twice"
    by (simp add: store_defs backward_def add_grad_def with_grads_def store_chain_once_def
          store_chain_twice_def eval_nat_numeral)
  have g: "map grad store_chain = [0, 0, 0]" by (simp add: store_defs)
  have v: "grad (store_chain_once ! 0) = 15" "grad (store_chain_twice ! 0) = 45"
    "grad (store_chain_once ! 2) = 1" "grad (store_chain_twice ! 2) = 1"
    by (simp_all add: store_defs with_grads_def store_chain_once_def store_chain_twice_def)
  from r b1 b2 g v show ?thesis by simp
qed

text \<open>
  Claim C3, amended. Two calls of \<open>backward\<close> on the same root without a reset in
  between double the gradient of every operand of the root that no other object
  reachable from the root has as an operand and whose gradient was zero before the
  first call; the gradient of the root is 1 after each call.
\<close>

theorem backward_twice_doubles_operands_of_root:
  assumes wf: "wf_heap h" and safe: "safe_heap h" and rt: "rt < length h" and depth: "rt < depth"
    and v: "v \<in> set (u_prev (h ! rt))"
    and sole: "only_consumer h rt v"
    and zero: "grad (h ! v) = 0"
  shows "\<exists>h1 h2. backward depth h rt = Inr h1 \<and> backward depth h1 rt = Inr h2 \<and>
           grad (h2 ! v) = 2 * grad (h1 ! v) \<and> grad (h1 ! rt) = 1 \<and> grad (h2 ! rt) = 1"
proof -
  from sole have only: "\<forall>u \<in> reach h rt. u \<noteq> rt \<longrightarrow> v \<notin> set (u_prev (h ! u))"
    by (simp add: only_consumer_def)
  from wf rt have "wf_node rt (h ! rt)" unfolding wf_heap_iff by blast
  with v have vrt: "v \<noteq> rt" unfolding wf_node_def by fastforce
  from backward_effect[OF wf safe rt depth vrt only] obtain h1 where
    h1: "backward depth h rt = Inr h1" "same_shape h h1" "grad (h1 ! rt) = 1"
        "grad (h1 ! v) = grad (h ! v) + coeff h (u_backward (h ! rt)) v"
    by blast
  have wf1: "wf_heap h1" using wf_heap_shape[OF h1(2) wf] .
  have safe1: "safe_heap h1" using safe_heap_shape[OF h1(2) safe] .
  have rt1: "rt < length h1" using rt same_shape_fields(4)[OF h1(2)] by simp
  have only1: "\<forall>u \<in> reach h1 rt. u \<noteq> rt \<longrightarrow> v \<notin> set (u_prev (h1 ! u))"
    using only reach_shape[OF h1(2)] same_shape_fields(3)[OF h1(2)] by simp
  from backward_effect[OF wf1 safe1 rt1 depth vrt only1] obtain h2 where
    h2: "backward depth h1 rt = Inr h2" "grad (h2 ! rt) = 1"
        "grad (h2 ! v) = grad (h1 ! v) + coeff h1 (u_backward (h1 ! rt)) v"
    by blast
  have "coeff h1 (u_backward (h1 ! rt)) v = coeff h (u_backward (h ! rt)) v"
    using coeff_shape[OF h1(2)] same_shape_fields(2)[OF h1(2)] by simp
  with h2(3) h1(4) zero have "grad (h2 ! v) = 2 * grad (h1 ! v)" by simp
  with h1(1,3) h2(1,2) show ?thesis by blast
qed

theorem backward_twice_doubles_operands_of_root_witness:
  "wf_heap store_chain \<and> safe_heap store_chain \<and> (2::nat) < length store_chain \<and> (2::nat) < 3 \<and>
   1 \<in> set (u_prev (store_chain ! 2)) \<and>
   only_consumer store_chain 2 1 \<and>
   grad (store_chain ! 1) = 0 \<and>
   (\<exists>h1 h2. backward 3 store_chain 2 = Inr h1 \<and> backward 3 h1 2 = Inr h2 \<and>
      grad (h2 ! 1) = 2 * grad (h1 ! 1) \<and> grad (h1 ! 2) = 1 \<and> grad (h2 ! 2) = 1)"
proof -
  have a: "(2::nat) < length store_chain" "1 \<in> set (u_prev (store_chain ! 2))"
    "grad (store_chain ! 1) = 0"
    by (simp_all add: store_defs)
  have b: "(2::nat) < 3" by simp
  have only: "only_consumer store_chain 2 1"
    unfolding only_consumer_def
  proof (intro ballI impI)
    fix u assume u: "u \<in> reach store_chain 2" "u \<noteq> 2"
    from reach_le[OF wf_store_chain a(1) u(1)] u(2) have "u = 0 \<or> u = 1" by auto
    then show "1 \<notin> set (u_prev (store_chain ! u))" by (auto simp: store_defs)
  qed
  from backward_twice_doubles_operands_of_root[OF wf_store_chain safe_store_chain a(1) b a(2) only a(3)]
    wf_store_chain safe_store_chain a b only
  show ?thesis by simp
qed

end
